theory Spec2Isabelle
  imports Complex_Main
begin

section \<open>IEEE 754 binary64 values, division and comparison\<close>

text \<open>
  The probes compute with C \<open>double\<close>. A double is modelled by its class: a finite
  value with its sign bit and its magnitude (a rational that binary64 represents
  exactly; the two zeros are \<open>Finite False 0\<close> and \<open>Finite True 0\<close>), an infinity
  with its sign, or a NaN. Division rounds the exact quotient to the nearest
  binary64 value, ties to even; a comparison with a NaN operand is false.
\<close>

datatype double = Finite bool rat | Infinity bool | NaN

fun bit_length :: "nat \<Rightarrow> nat" where
  "bit_length n = (if n = 0 then 0 else Suc (bit_length (n div 2)))"

declare bit_length.simps [simp del]

definition floor_log2 :: "rat \<Rightarrow> int" where
  \<comment> \<open>the exponent \<open>e\<close> with \<open>2 ^ e \<le> q < 2 ^ (e + 1)\<close>, for \<open>0 < q\<close>\<close>
  "floor_log2 q = (if 1 \<le> q then int (bit_length (nat \<lfloor>q\<rfloor>)) - 1
                   else - int (bit_length (nat (\<lceil>1 / q\<rceil> - 1))))"

definition pow2 :: "int \<Rightarrow> rat" where
  "pow2 e = (if 0 \<le> e then 2 ^ nat e else 1 / 2 ^ nat (- e))"

definition round_even :: "rat \<Rightarrow> int" where
  "round_even r = (let f = \<lfloor>r\<rfloor>; d = r - of_int f in
     if d < 1 / 2 then f else if 1 / 2 < d then f + 1
     else if even f then f else f + 1)"

definition round_double :: "bool \<Rightarrow> rat \<Rightarrow> double" where
  \<comment> \<open>round the magnitude \<open>q\<close> to 53 significant bits (fewer below \<open>2 ^ -1022\<close>)\<close>
  "round_double s q = (if q = 0 then Finite s 0 else
     let e = max (floor_log2 q - 52) (- 1074);
         v = of_int (round_even (q / pow2 e)) * pow2 e
     in if 2 ^ 1024 \<le> v then Infinity s else Finite s v)"

fun fdiv :: "double \<Rightarrow> double \<Rightarrow> double" where
  "fdiv NaN _ = NaN"
| "fdiv _ NaN = NaN"
| "fdiv (Infinity s) (Infinity t) = NaN"
| "fdiv (Infinity s) (Finite t b) = Infinity (s \<noteq> t)"
| "fdiv (Finite s a) (Infinity t) = Finite (s \<noteq> t) 0"
| "fdiv (Finite s a) (Finite t b) =
     (if b = 0 then (if a = 0 then NaN else Infinity (s \<noteq> t))
      else round_double (s \<noteq> t) (a / b))"

definition sval :: "bool \<Rightarrow> rat \<Rightarrow> rat" where
  "sval s m = (if s then - m else m)"

fun flt :: "double \<Rightarrow> double \<Rightarrow> bool" where
  "flt NaN _ = False"
| "flt _ NaN = False"
| "flt (Infinity s) (Infinity t) = (s \<and> \<not> t)"
| "flt (Infinity s) (Finite t b) = s"
| "flt (Finite s a) (Infinity t) = (\<not> t)"
| "flt (Finite s a) (Finite t b) = (sval s a < sval t b)"

definition fgt :: "double \<Rightarrow> double \<Rightarrow> bool" where
  "fgt x y = flt y x"

definition lit :: "rat \<Rightarrow> double" where
  \<comment> \<open>the double a decimal literal of the source denotes\<close>
  "lit q = round_double (q < 0) \<bar>q\<bar>"

definition d_1_0 :: double where "d_1_0 = lit 1"
definition d_1_3 :: double where "d_1_3 = lit (13 / 10)"
definition d_1_25 :: double where "d_1_25 = lit (125 / 100)"
definition d_1_5 :: double where "d_1_5 = lit (15 / 10)"
definition d_0_6 :: double where "d_0_6 = lit (6 / 10)"

section \<open>Arrays with checked access\<close>

text \<open>
  A C array is a list of its declared length. A read or write outside it, a store
  through a null pointer and an integer division by zero are undefined behaviour
  in C; the model returns an error there, so that a result \<open>Inr v\<close> says that none
  of them happened.
\<close>

datatype error = OutOfBounds | NullDeref | DivByZero

definition rd :: "'a list \<Rightarrow> nat \<Rightarrow> error + 'a" where
  "rd xs i = (if i < length xs then Inr (xs ! i) else Inl OutOfBounds)"

definition wr :: "'a list \<Rightarrow> nat \<Rightarrow> 'a \<Rightarrow> error + 'a list" where
  "wr xs i v = (if i < length xs then Inr (xs[i := v]) else Inl OutOfBounds)"

definition bnd :: "error + 'a \<Rightarrow> ('a \<Rightarrow> error + 'b) \<Rightarrow> error + 'b" where
  "bnd m f = (case m of Inl e \<Rightarrow> Inl e | Inr v \<Rightarrow> f v)"

section \<open>Line size: \<open>probe_cache_line_size\<close>\<close>

text \<open>
  The measurement loop stores one normalized time per stride; the clock is the
  environment's, so the value stored at sweep index \<open>s\<close> is the input \<open>meas s\<close>.
  \<open>norm_times\<close> is declared with 10 cells (6 in the core-class file) and is not
  initialised: its first contents are an input too.
\<close>

definition strides :: "int list" where
  "strides = [8, 16, 32, 64, 128, 256, 512, 1024]"

definition strides_cores :: "int list" where
  "strides_cores = [8, 16, 32, 64, 128, 256]"

function fill_times :: "(nat \<Rightarrow> double) \<Rightarrow> double list \<Rightarrow> nat \<Rightarrow> nat \<Rightarrow> error + double list" where
  "fill_times meas tms n s =
     (if s < n then bnd (wr tms s (meas s)) (\<lambda>tms'. fill_times meas tms' n (Suc s))
      else Inr tms)"
  by pat_completeness auto
termination
  by (relation "measure (\<lambda>(meas, tms, n, s). n - s)") auto

declare fill_times.simps [simp del]

text \<open>
  \<^verbatim>\<open>for (int s = 2; s < num_strides - 1; s++) { ... if (growth_before > 1.3 &&
  growth_after < 1.3) { detected = strides[s]; break; } }\<close>
\<close>

function line_scan :: "int list \<Rightarrow> double list \<Rightarrow> nat \<Rightarrow> nat \<Rightarrow> int \<Rightarrow> error + int" where
  "line_scan strd norm_times bound s detected =
     (if s < bound then
        bnd (rd norm_times s) (\<lambda>cur.
        bnd (rd norm_times (s - 1)) (\<lambda>prev.
        bnd (rd norm_times (s + 1)) (\<lambda>nxt.
          let growth_before = fdiv cur prev;
              growth_after = fdiv nxt cur
          in if fgt growth_before d_1_3 \<and> flt growth_after d_1_3
             then rd strd s
             else line_scan strd norm_times bound (Suc s) detected)))
      else Inr detected)"
  by pat_completeness auto
termination
  by (relation "measure (\<lambda>(strd, norm_times, bound, s, detected). bound - s)") auto

declare line_scan.simps [simp del]

definition line_size_detect :: "double list \<Rightarrow> error + int" where
  \<comment> \<open>cache\_info.c, lines 87 to 95: \<open>num_strides\<close> is 8\<close>
  "line_size_detect norm_times = line_scan strides norm_times (8 - 1) 2 64"

definition line_size_detect_cores :: "double list \<Rightarrow> error + int" where
  \<comment> \<open>cache\_info\_cores.c, lines 75 to 82\<close>
  "line_size_detect_cores norm_times = line_scan strides_cores norm_times 5 2 64"

definition probe_cache_line_size :: "bool \<Rightarrow> (nat \<Rightarrow> double) \<Rightarrow> double list \<Rightarrow> error + int" where
  "probe_cache_line_size malloc_ok meas norm_times =
     (if \<not> malloc_ok then Inr 64
      else bnd (fill_times meas norm_times 8 0) line_size_detect)"

definition probe_cache_line_size_cores :: "bool \<Rightarrow> (nat \<Rightarrow> double) \<Rightarrow> double list \<Rightarrow> error + int" where
  "probe_cache_line_size_cores malloc_ok meas norm_times =
     (if \<not> malloc_ok then Inr 64
      else bnd (fill_times meas norm_times 6 0) line_size_detect_cores)"

section \<open>Page size: \<open>probe_page_size\<close>\<close>

definition page_strides :: "nat list" where
  "page_strides = [512, 1024, 2048, 4096, 8192, 16384]"

text \<open>
  \<^verbatim>\<open>for (int s = 2; s < num_strides; s++) { double ratio = times[s] / times[s-1];
  if (ratio < 0.6) { detected = strides[s-1]; break; } }\<close>
\<close>

function page_scan :: "double list \<Rightarrow> nat \<Rightarrow> nat \<Rightarrow> nat \<Rightarrow> error + nat" where
  "page_scan tms num_strides s detected =
     (if s < num_strides then
        bnd (rd tms s) (\<lambda>cur.
        bnd (rd tms (s - 1)) (\<lambda>prev.
          let ratio = fdiv cur prev
          in if flt ratio d_0_6 then rd page_strides (s - 1)
             else page_scan tms num_strides (Suc s) detected))
      else Inr detected)"
  by pat_completeness auto
termination
  by (relation "measure (\<lambda>(tms, num_strides, s, detected). num_strides - s)") auto

declare page_scan.simps [simp del]

definition page_size_detect :: "double list \<Rightarrow> error + nat" where
  "page_size_detect tms = page_scan tms 6 2 4096"

definition probe_page_size :: "bool \<Rightarrow> (nat \<Rightarrow> double) \<Rightarrow> double list \<Rightarrow> error + nat" where
  \<comment> \<open>\<open>times\<close> is declared with 8 cells\<close>
  "probe_page_size malloc_ok meas tms =
     (if \<not> malloc_ok then Inr 4096
      else bnd (fill_times meas tms 6 0) page_size_detect)"

section \<open>TLB entries: \<open>probe_tlb_size\<close>\<close>

definition pages_to_test :: "int list" where
  "pages_to_test = [8, 16, 32, 64, 128, 256, 512, 1024, 2048, 4096]"

text \<open>
  \<^verbatim>\<open>for (int t = 1; t < num_tests; t++) { double ratio = times[t] / times[t-1];
  if (ratio > 1.25) { detected = pages_to_test[t-1]; break; } }\<close>
\<close>

function tlb_scan :: "double list \<Rightarrow> nat \<Rightarrow> nat \<Rightarrow> int \<Rightarrow> error + int" where
  "tlb_scan tms num_tests t detected =
     (if t < num_tests then
        bnd (rd tms t) (\<lambda>cur.
        bnd (rd tms (t - 1)) (\<lambda>prev.
          let ratio = fdiv cur prev
          in if fgt ratio d_1_25 then rd pages_to_test (t - 1)
             else tlb_scan tms num_tests (Suc t) detected))
      else Inr detected)"
  by pat_completeness auto
termination
  by (relation "measure (\<lambda>(tms, num_tests, t, detected). num_tests - t)") auto

declare tlb_scan.simps [simp del]

definition tlb_size_detect :: "double list \<Rightarrow> error + int" where
  "tlb_size_detect tms = tlb_scan tms 10 1 64"

text \<open>
  The measurement loop of \<open>probe_tlb_size\<close> allocates \<open>order\<close> for each page count
  and writes through it without a check: \<open>order_ok t\<close> says whether that \<open>malloc\<close>
  returned memory at sweep index \<open>t\<close>. \<open>times\<close> is declared with 12 cells.
\<close>

function tlb_measure :: "(nat \<Rightarrow> bool) \<Rightarrow> (nat \<Rightarrow> double) \<Rightarrow> double list \<Rightarrow> nat \<Rightarrow> nat \<Rightarrow> error + double list" where
  "tlb_measure order_ok meas tms num_tests t =
     (if t < num_tests then
        (if \<not> order_ok t then Inl NullDeref
         else bnd (wr tms t (meas t)) (\<lambda>tms'. tlb_measure order_ok meas tms' num_tests (Suc t)))
      else Inr tms)"
  by pat_completeness auto
termination
  by (relation "measure (\<lambda>(order_ok, meas, tms, num_tests, t). num_tests - t)") auto

declare tlb_measure.simps [simp del]

definition probe_tlb_size :: "bool \<Rightarrow> (nat \<Rightarrow> bool) \<Rightarrow> (nat \<Rightarrow> double) \<Rightarrow> double list \<Rightarrow> error + int" where
  "probe_tlb_size malloc_ok order_ok meas tms =
     (if \<not> malloc_ok then Inr 64
      else bnd (tlb_measure order_ok meas tms 10 0) tlb_size_detect)"

section \<open>Associativity: \<open>probe_associativity\<close>\<close>

definition ways_to_test :: "int list" where
  "ways_to_test = [2, 4, 6, 8, 10, 12, 14, 16, 20, 24, 32]"

text \<open>
  \<^verbatim>\<open>for (int t = 1; t < num_tests; t++) { double ratio = times[t] / times[t-1];
  if (ratio > max_ratio && ratio > 1.3) { max_ratio = ratio; detected = ways_to_test[t-1]; } }\<close>
\<close>

function assoc_scan :: "double list \<Rightarrow> nat \<Rightarrow> nat \<Rightarrow> double \<Rightarrow> int \<Rightarrow> error + int" where
  "assoc_scan tms num_tests t max_ratio detected =
     (if t < num_tests then
        bnd (rd tms t) (\<lambda>cur.
        bnd (rd tms (t - 1)) (\<lambda>prev.
          let ratio = fdiv cur prev
          in if fgt ratio max_ratio \<and> fgt ratio d_1_3
             then bnd (rd ways_to_test (t - 1)) (\<lambda>w. assoc_scan tms num_tests (Suc t) ratio w)
             else assoc_scan tms num_tests (Suc t) max_ratio detected))
      else Inr detected)"
  by pat_completeness auto
termination
  by (relation "measure (\<lambda>(tms, num_tests, t, max_ratio, detected). num_tests - t)") auto

declare assoc_scan.simps [simp del]

definition associativity_detect :: "double list \<Rightarrow> error + int" where
  "associativity_detect tms = assoc_scan tms 11 1 d_1_0 8"

definition probe_associativity :: "bool \<Rightarrow> (nat \<Rightarrow> double) \<Rightarrow> double list \<Rightarrow> error + int" where
  \<comment> \<open>\<open>times\<close> is declared with 16 cells\<close>
  "probe_associativity malloc_ok meas tms =
     (if \<not> malloc_ok then Inr 8
      else bnd (fill_times meas tms 11 0) associativity_detect)"

section \<open>Cache sizes: \<open>probe_cache_sizes\<close>\<close>

definition sizes :: "nat list" where
  "sizes = [4*1024, 8*1024, 16*1024, 32*1024, 48*1024, 64*1024, 96*1024, 128*1024,
            192*1024, 256*1024, 384*1024, 512*1024, 768*1024, 1024*1024, 1536*1024,
            2*1024*1024, 3*1024*1024, 4*1024*1024, 6*1024*1024, 8*1024*1024,
            12*1024*1024, 16*1024*1024, 24*1024*1024, 32*1024*1024]"

text \<open>
  The measurement loop allocates the chase array of each footprint and leaves the
  loop at the first failed allocation (\<^verbatim>\<open>if (!array) break;\<close>); the cells of
  \<open>times\<close> from that index on keep what they held. \<open>malloc_ok s\<close> says whether the
  allocation at sweep index \<open>s\<close> succeeded; building the chase, walking it and
  timing the walk give the value \<open>meas s\<close>.
\<close>

function sizes_measure :: "(nat \<Rightarrow> bool) \<Rightarrow> (nat \<Rightarrow> double) \<Rightarrow> double list \<Rightarrow> nat \<Rightarrow> nat \<Rightarrow> error + double list" where
  "sizes_measure malloc_ok meas tms num_sizes s =
     (if s < num_sizes then
        (if \<not> malloc_ok s then Inr tms
         else bnd (wr tms s (meas s)) (\<lambda>tms'. sizes_measure malloc_ok meas tms' num_sizes (Suc s)))
      else Inr tms)"
  by pat_completeness auto
termination
  by (relation "measure (\<lambda>(malloc_ok, meas, tms, num_sizes, s). num_sizes - s)") auto

declare sizes_measure.simps [simp del]

text \<open>
  The detection scan, lines 189 to 198; the state is \<open>(*l1_size, *l2_size, *l3_size)\<close>.
\<close>

function size_scan :: "double list \<Rightarrow> nat \<Rightarrow> nat \<Rightarrow> nat \<times> nat \<times> nat \<Rightarrow> error + nat \<times> nat \<times> nat" where
  "size_scan tms num_sizes s (l1_size, l2_size, l3_size) =
     (if s < num_sizes then
        bnd (rd tms s) (\<lambda>cur.
        bnd (rd tms (s - 1)) (\<lambda>prev.
        bnd (rd sizes (s - 1)) (\<lambda>prior.
          let ratio = fdiv cur prev
          in if l1_size = 0 \<and> prior \<le> 192*1024 \<and> fgt ratio d_1_3
             then size_scan tms num_sizes (Suc s) (prior, l2_size, l3_size)
             else if l2_size = 0 \<and> prior > 192*1024 \<and> prior \<le> 16*1024*1024 \<and> fgt ratio d_1_3
             then size_scan tms num_sizes (Suc s) (l1_size, prior, l3_size)
             else if l3_size = 0 \<and> prior > 4*1024*1024 \<and> fgt ratio d_1_5
             then size_scan tms num_sizes (Suc s) (l1_size, l2_size, prior)
             else size_scan tms num_sizes (Suc s) (l1_size, l2_size, l3_size))))
      else Inr (l1_size, l2_size, l3_size))"
  by pat_completeness auto
termination
  by (relation "measure (\<lambda>(tms, num_sizes, s, st). num_sizes - s)") auto

declare size_scan.simps [simp del]

definition cache_sizes_detect :: "double list \<Rightarrow> error + nat \<times> nat \<times> nat" where
  "cache_sizes_detect tms = size_scan tms 24 1 (0, 0, 0)"

definition probe_cache_sizes :: "(nat \<Rightarrow> bool) \<Rightarrow> (nat \<Rightarrow> double) \<Rightarrow> double list \<Rightarrow> error + nat \<times> nat \<times> nat" where
  \<comment> \<open>\<open>times\<close> is declared with 32 cells\<close>
  "probe_cache_sizes malloc_ok meas tms =
     bnd (sizes_measure malloc_ok meas tms 24 0) cache_sizes_detect"






section \<open>The pointer chase: \<open>create_pointer_chase\<close>\<close>

text \<open>
  \<open>size_t\<close> has 64 bits; \<open>count - 1\<close> wraps for \<open>count = 0\<close>. The \<open>k\<close>-th call of
  \<open>rand()\<close> since entry returns \<open>rnd k\<close>.
\<close>

function init_chain :: "nat list \<Rightarrow> nat \<Rightarrow> nat \<Rightarrow> error + nat list" where
  "init_chain array count i =
     (if i < count then
        bnd (wr array i ((i + 1) mod count)) (\<lambda>array'. init_chain array' count (Suc i))
      else Inr array)"
  by pat_completeness auto
termination
  by (relation "measure (\<lambda>(array, count, i). count - i)") auto

declare init_chain.simps [simp del]

text \<open>
  \<^verbatim>\<open>for (size_t i = count - 1; i > 0; i--) { size_t j = (size_t)rand() % (i + 1);
  size_t temp = array[i]; array[i] = array[j]; array[j] = temp; }\<close>
\<close>

fun shuffle :: "nat list \<Rightarrow> (nat \<Rightarrow> nat) \<Rightarrow> nat \<Rightarrow> nat \<Rightarrow> error + nat list" where
  "shuffle array rnd k 0 = Inr array"
| "shuffle array rnd k (Suc n) =
     (let i = Suc n; m = (i + 1) mod 2 ^ 64
      in if m = 0 then Inl DivByZero
         else let j = rnd k mod m
              in bnd (rd array i) (\<lambda>temp.
                 bnd (rd array j) (\<lambda>aj.
                 bnd (wr array i aj) (\<lambda>array'.
                 bnd (wr array' j temp) (\<lambda>array''.
                   shuffle array'' rnd (Suc k) n)))))"

definition deref :: "'a list option \<Rightarrow> error + 'a list" where
  "deref p = (case p of None \<Rightarrow> Inl NullDeref | Some xs \<Rightarrow> Inr xs)"

text \<open>
  \<^verbatim>\<open>size_t pos = 0; for (size_t i = 0; i < count; i++) { chase[pos] = array[i];
  visited[pos] = 1; pos = array[i]; }\<close>
\<close>

function link_chase :: "nat list \<Rightarrow> nat list option \<Rightarrow> nat list option \<Rightarrow> nat \<Rightarrow> nat \<Rightarrow> nat \<Rightarrow> error + nat list option" where
  "link_chase array chase visited count pos i =
     (if i < count then
        bnd (rd array i) (\<lambda>v.
        bnd (deref chase) (\<lambda>c.
        bnd (wr c pos v) (\<lambda>c'.
        bnd (deref visited) (\<lambda>vis.
        bnd (wr vis pos 1) (\<lambda>vis'.
          link_chase array (Some c') (Some vis') count v (Suc i))))))
      else Inr chase)"
  by pat_completeness auto
termination
  by (relation "measure (\<lambda>(array, chase, visited, count, pos, i). count - i)") auto

declare link_chase.simps [simp del]

function copy_back :: "nat list \<Rightarrow> nat list option \<Rightarrow> nat \<Rightarrow> nat \<Rightarrow> error + nat list" where
  "copy_back array chase count i =
     (if i < count then
        bnd (deref chase) (\<lambda>c.
        bnd (rd c i) (\<lambda>v.
        bnd (wr array i v) (\<lambda>array'. copy_back array' chase count (Suc i))))
      else Inr array)"
  by pat_completeness auto
termination
  by (relation "measure (\<lambda>(array, chase, count, i). count - i)") auto

declare copy_back.simps [simp del]

text \<open>
  cache\_info.c. \<open>visited\<close> comes from \<open>calloc\<close> (zeros, or NULL when \<open>visited_ok\<close> is
  false); \<open>chase\<close> comes from \<open>malloc\<close>: NULL (\<open>None\<close>) or \<open>count\<close> cells with the
  contents the allocator left there. Neither pointer is checked.
\<close>

definition create_pointer_chase :: "nat list \<Rightarrow> nat \<Rightarrow> (nat \<Rightarrow> nat) \<Rightarrow> bool \<Rightarrow> nat list option \<Rightarrow> error + nat list" where
  "create_pointer_chase array count rnd visited_ok chase =
     bnd (init_chain array count 0) (\<lambda>a1.
     bnd (shuffle a1 rnd 0 ((count + 2 ^ 64 - 1) mod 2 ^ 64)) (\<lambda>a2.
     bnd (link_chase a2 chase (if visited_ok then Some (replicate count 0) else None) count 0 0) (\<lambda>chase'.
       copy_back a2 chase' count 0)))"

text \<open>cache\_info\_cores.c: the first two loops only.\<close>

definition create_pointer_chase_cores :: "nat list \<Rightarrow> nat \<Rightarrow> (nat \<Rightarrow> nat) \<Rightarrow> error + nat list" where
  "create_pointer_chase_cores array count rnd =
     bnd (init_chain array count 0) (\<lambda>a1.
       shuffle a1 rnd 0 ((count + 2 ^ 64 - 1) mod 2 ^ 64))"

text \<open>
  The traversal of the probes, \<^verbatim>\<open>idx = array[idx]\<close> repeated \<open>n\<close> times: \<open>walk\<close> gives
  the index reached, \<open>trace\<close> the indices read on the way.
\<close>

fun walk :: "nat list \<Rightarrow> nat \<Rightarrow> nat \<Rightarrow> error + nat" where
  "walk array idx 0 = Inr idx"
| "walk array idx (Suc n) = bnd (rd array idx) (\<lambda>nxt. walk array nxt n)"

fun trace :: "nat list \<Rightarrow> nat \<Rightarrow> nat \<Rightarrow> error + nat list" where
  "trace array idx 0 = Inr []"
| "trace array idx (Suc n) =
     bnd (rd array idx) (\<lambda>nxt. bnd (trace array nxt n) (\<lambda>rest. Inr (idx # rest)))"

definition cycle_from :: "nat list \<Rightarrow> nat \<Rightarrow> nat \<Rightarrow> bool" where
  \<comment> \<open>\<open>count\<close> steps from \<open>start\<close> read every cell once and end at \<open>start\<close>\<close>
  "cycle_from array count start =
     (case trace array start count of
        Inl e \<Rightarrow> False
      | Inr visited \<Rightarrow> distinct visited \<and> set visited = {0..<count}
                       \<and> walk array start count = Inr start)"

definition single_cycle :: "nat list \<Rightarrow> nat \<Rightarrow> bool" where
  "single_cycle array count = list_all (cycle_from array count) [0..<count]"

section \<open>The vote over ten TLB probes: \<open>main\<close> of tlb\_info.c\<close>

text \<open>
  \<^verbatim>\<open>int count = 0; for (int j = 0; j < 10; j++) { if (results[j] == results[i]) count++; }\<close>
\<close>

function count_equal :: "int list \<Rightarrow> nat \<Rightarrow> nat \<Rightarrow> int \<Rightarrow> error + int" where
  "count_equal results i j count =
     (if j < 10 then
        bnd (rd results j) (\<lambda>rj.
        bnd (rd results i) (\<lambda>ri.
          count_equal results i (Suc j) (if rj = ri then count + 1 else count)))
      else Inr count)"
  by pat_completeness auto
termination
  by (relation "measure (\<lambda>(results, i, j, count). 10 - j)") auto

declare count_equal.simps [simp del]

text \<open>
  \<^verbatim>\<open>for (int i = 0; i < 10; i++) { ... if (count > max_count) { max_count = count;
  tlb_size = results[i]; } }\<close>
\<close>

function vote :: "int list \<Rightarrow> nat \<Rightarrow> int \<Rightarrow> int \<Rightarrow> error + int" where
  "vote results i max_count tlb_size =
     (if i < 10 then
        bnd (count_equal results i 0 0) (\<lambda>count.
          if count > max_count
          then bnd (rd results i) (\<lambda>ri. vote results (Suc i) count ri)
          else vote results (Suc i) max_count tlb_size)
      else Inr tlb_size)"
  by pat_completeness auto
termination
  by (relation "measure (\<lambda>(results, i, max_count, tlb_size). 10 - i)") auto

declare vote.simps [simp del]

definition most_frequent :: "int list \<Rightarrow> error + int" where
  \<comment> \<open>\<open>int tlb_size = results[0]; int max_count = 1;\<close> and the loop\<close>
  "most_frequent results = bnd (rd results 0) (\<lambda>r0. vote results 0 1 r0)"

text \<open>
  \<open>run i\<close> is the outcome of the \<open>i\<close>-th call of \<open>probe_tlb_size\<close>; \<open>results\<close> is
  declared with 10 cells.
\<close>

function collect_results :: "(nat \<Rightarrow> error + int) \<Rightarrow> int list \<Rightarrow> nat \<Rightarrow> error + int list" where
  "collect_results run results i =
     (if i < 10 then
        bnd (run i) (\<lambda>r. bnd (wr results i r) (\<lambda>results'. collect_results run results' (Suc i)))
      else Inr results)"
  by pat_completeness auto
termination
  by (relation "measure (\<lambda>(run, results, i). 10 - i)") auto

declare collect_results.simps [simp del]

definition tlb_main :: "(nat \<Rightarrow> error + int) \<Rightarrow> int list \<Rightarrow> error + int" where
  "tlb_main run results = bnd (collect_results run results 0) most_frequent"

section \<open>Jumps of a latency curve\<close>

text \<open>
  The notions the statements below are written in. \<open>ratio_at tms s\<close> is the ratio the
  scans compute at sweep index \<open>s\<close>.
\<close>

definition ratio_at :: "double list \<Rightarrow> nat \<Rightarrow> double" where
  "ratio_at tms s = fdiv (tms ! s) (tms ! (s - 1))"

definition none_above :: "double list \<Rightarrow> double \<Rightarrow> nat \<Rightarrow> bool" where
  \<comment> \<open>no ratio at the indices 1 to \<open>n - 1\<close> is above the threshold\<close>
  "none_above tms thr n = list_all (\<lambda>u. \<not> fgt (ratio_at tms u) thr) [1..<n]"

definition largest_above :: "double list \<Rightarrow> double \<Rightarrow> nat \<Rightarrow> nat \<Rightarrow> bool" where
  \<comment> \<open>\<open>t\<close> is the first index, among 1 to \<open>n - 1\<close>, of the largest ratio, and that ratio
      is above the threshold\<close>
  "largest_above tms thr n t =
     (1 \<le> t \<and> t < n \<and> fgt (ratio_at tms t) thr
      \<and> list_all (\<lambda>u. \<not> fgt (ratio_at tms u) (ratio_at tms t)) [1..<n]
      \<and> list_all (\<lambda>u. fgt (ratio_at tms t) (ratio_at tms u) \<or> ratio_at tms u = NaN) [1..<t])"

definition first_above :: "double list \<Rightarrow> double \<Rightarrow> nat \<Rightarrow> nat option" where
  \<comment> \<open>the first index, among 1 to \<open>n - 1\<close>, whose ratio is above the threshold\<close>
  "first_above tms thr n = find (\<lambda>t. fgt (ratio_at tms t) thr) [1..<n]"

text \<open>
  The qualifying jumps of the three tiers of \<open>probe_cache_sizes\<close>, in the words of the
  specification: a ratio above 1.3 with the prior footprint at most 192 KiB (L1), above
  192 KiB and at most 16 MiB (L2); a ratio above 1.5 with the prior footprint above
  4 MiB (L3). \<open>tier q\<close> is the footprint before the first index that \<open>q\<close> holds at, and
  0 when there is none.
\<close>

definition l1_jump :: "double list \<Rightarrow> nat \<Rightarrow> bool" where
  "l1_jump tms s = (sizes ! (s - 1) \<le> 192*1024 \<and> fgt (ratio_at tms s) d_1_3)"

definition l2_jump :: "double list \<Rightarrow> nat \<Rightarrow> bool" where
  "l2_jump tms s = (sizes ! (s - 1) > 192*1024 \<and> sizes ! (s - 1) \<le> 16*1024*1024
                    \<and> fgt (ratio_at tms s) d_1_3)"

definition l3_jump :: "double list \<Rightarrow> nat \<Rightarrow> bool" where
  "l3_jump tms s = (sizes ! (s - 1) > 4*1024*1024 \<and> fgt (ratio_at tms s) d_1_5)"

definition tier_below :: "(nat \<Rightarrow> bool) \<Rightarrow> nat \<Rightarrow> nat" where
  \<comment> \<open>the tier as the scan has it before it looks at index \<open>n\<close>\<close>
  "tier_below q n = (case find q [1..<n] of None \<Rightarrow> 0 | Some s \<Rightarrow> sizes ! (s - 1))"

definition tier :: "(nat \<Rightarrow> bool) \<Rightarrow> nat" where
  "tier q = tier_below q 24"

definition l3_jump_left :: "double list \<Rightarrow> nat \<Rightarrow> bool" where
  \<comment> \<open>an L3 jump that is not the first L2 jump, which the scan gives to L2\<close>
  "l3_jump_left tms s = (l3_jump tms s \<and> find (l2_jump tms) [1..<24] \<noteq> Some s)"

section \<open>Environments of concrete runs\<close>

definition rand_zero :: "nat \<Rightarrow> nat" where
  \<comment> \<open>a \<open>rand()\<close> that returns 0 at every call\<close>
  "rand_zero k = 0"

definition alloc_ok_below :: "nat \<Rightarrow> nat \<Rightarrow> bool" where
  \<comment> \<open>\<open>malloc\<close> succeeds at the sweep indices below \<open>k\<close> and fails from \<open>k\<close> on\<close>
  "alloc_ok_below k s = (s < k)"

section \<open>Facts about the double operations\<close>

lemma floor_rat_numeral: "\<lfloor>(numeral a :: rat) / numeral b\<rfloor> = numeral a div numeral b"
  by (metis floor_divide_of_int_eq of_int_numeral)

lemma ceiling_rat_numeral: "\<lceil>(numeral a :: rat) / numeral b\<rceil> = - (- numeral a div numeral b)"
  unfolding ceiling_def by (metis floor_divide_of_int_eq of_int_numeral of_int_minus minus_divide_left)

lemmas round_defs = round_double_def floor_log2_def bit_length.simps pow2_def round_even_def Let_def
  floor_rat_numeral ceiling_rat_numeral

lemma round_double_one: "round_double s 1 = Finite s 1"
  by (simp add: round_defs)

lemma d_1_0_val: "d_1_0 = Finite False 1"
  by (simp add: d_1_0_def lit_def round_double_one)

lemma d_1_3_val: "d_1_3 = Finite False (5854679515581645 / 4503599627370496)"
  by (simp add: d_1_3_def lit_def round_defs)

lemma d_1_25_val: "d_1_25 = Finite False (5 / 4)"
  by (simp add: d_1_25_def lit_def round_defs)

lemma d_1_5_val: "d_1_5 = Finite False (3 / 2)"
  by (simp add: d_1_5_def lit_def round_defs)

lemma d_0_6_val: "d_0_6 = Finite False (5404319552844595 / 9007199254740992)"
  by (simp add: d_0_6_def lit_def round_defs)

lemma fdiv_self: "fdiv x x = Finite False 1 \<or> fdiv x x = NaN"
  by (cases x) (simp_all add: round_double_one)


lemma fgt_NaN_left [simp]: "\<not> fgt NaN y"
  by (cases y) (simp_all add: fgt_def)

lemma fgt_NaN_right [simp]: "\<not> fgt x NaN"
  by (simp add: fgt_def)

lemma flt_NaN [simp]: "\<not> flt x NaN"
  by (cases x) simp_all

lemma one_not_above: "\<not> fgt (Finite False 1) d_1_3" "\<not> fgt (Finite False 1) d_1_25"
  "\<not> fgt (Finite False 1) d_1_0" "\<not> fgt (Finite False 1) d_1_5"
  by (simp_all add: fgt_def sval_def d_1_3_val d_1_25_val d_1_0_val d_1_5_val)


lemma one_not_below_0_6: "\<not> flt (Finite False 1) d_0_6"
  by (simp add: sval_def d_0_6_val)

lemma flat_ratio:
  "\<not> fgt (fdiv x x) d_1_3" "\<not> fgt (fdiv x x) d_1_25" "\<not> fgt (fdiv x x) d_1_0"
  "\<not> fgt (fdiv x x) d_1_5" "\<not> flt (fdiv x x) d_0_6"
  using fdiv_self [of x] one_not_above one_not_below_0_6 by auto

lemma fgt_trans: "fgt a b \<Longrightarrow> fgt b c \<Longrightarrow> fgt a c"
  by (cases a; cases b; cases c) (auto simp: fgt_def)

lemma fgt_irrefl: "\<not> fgt a a"
  by (cases a) (auto simp: fgt_def)

lemma fgt_below: "\<not> fgt a b \<Longrightarrow> fgt c b \<Longrightarrow> a \<noteq> NaN \<Longrightarrow> fgt c a"
  by (cases a; cases b; cases c) (auto simp: fgt_def)

lemma d_1_3_above_1_0: "fgt d_1_3 d_1_0"
  by (simp add: fgt_def sval_def d_1_3_val d_1_0_val)

lemma d_1_5_above_1_3: "fgt d_1_5 d_1_3"
  by (simp add: fgt_def sval_def d_1_3_val d_1_5_val)

section \<open>Facts about the arrays and the detection loops\<close>

lemma rd_in_range [simp]: "i < length xs \<Longrightarrow> rd xs i = Inr (xs ! i)"
  by (simp add: rd_def)

lemma bnd_Inr [simp]: "bnd (Inr v) f = f v"
  by (simp add: bnd_def)

lemma bnd_Inl [simp]: "bnd (Inl e) f = Inl e"
  by (simp add: bnd_def)

lemma line_size_in_range:
  "length norm_times = 10 \<Longrightarrow> \<exists>v. line_size_detect norm_times = Inr v \<and> v \<in> {32, 64, 128, 256, 512}"
  by (simp add: line_size_detect_def line_scan.simps Let_def strides_def)

lemma line_size_cores_in_range:
  "length norm_times = 6 \<Longrightarrow> \<exists>v. line_size_detect_cores norm_times = Inr v \<and> v \<in> {32, 64, 128}"
  by (simp add: line_size_detect_cores_def line_scan.simps Let_def strides_cores_def)





lemma wr_in_range [simp]: "i < length xs \<Longrightarrow> wr xs i v = Inr (xs[i := v])"
  by (simp add: wr_def)

lemma fill_times_result:
  "n \<le> length tms \<Longrightarrow> n - s = k \<Longrightarrow>
   \<exists>tms'. fill_times meas tms n s = Inr tms' \<and> length tms' = length tms \<and>
     (\<forall>i < length tms. tms' ! i = (if s \<le> i \<and> i < n then meas i else tms ! i))"
proof (induction k arbitrary: s tms)
  case 0
  then show ?case by (subst fill_times.simps) auto
next
  case (Suc k)
  then have s: "s < n" "s < length tms" by simp_all
  from Suc.prems have "\<exists>tms'. fill_times meas (tms[s := meas s]) n (Suc s) = Inr tms' \<and>
      length tms' = length (tms[s := meas s]) \<and>
      (\<forall>i < length (tms[s := meas s]). tms' ! i =
         (if Suc s \<le> i \<and> i < n then meas i else tms[s := meas s] ! i))"
    by (intro Suc.IH) simp_all
  then obtain tms' where r: "fill_times meas (tms[s := meas s]) n (Suc s) = Inr tms'"
      "length tms' = length tms"
      "\<forall>i < length tms. tms' ! i = (if Suc s \<le> i \<and> i < n then meas i else tms[s := meas s] ! i)"
    by auto
  have "fill_times meas tms n s = Inr tms'"
    using s r(1) by (subst fill_times.simps) simp
  moreover have "\<forall>i < length tms. tms' ! i = (if s \<le> i \<and> i < n then meas i else tms ! i)"
    using r(3) s by (auto simp: nth_list_update)
  ultimately show ?case using r(2) by blast
qed

lemma tlb_measure_fill:
  "\<forall>t. order_ok t \<Longrightarrow> tlb_measure order_ok meas tms n s = fill_times meas tms n s"
proof (induction "n - s" arbitrary: s tms)
  case 0
  then show ?case by (subst tlb_measure.simps, subst fill_times.simps) simp
next
  case (Suc k)
  then have "s < n" by simp
  show ?case
  proof (cases "s < length tms")
    case True
    have "tlb_measure order_ok meas (tms[s := meas s]) n (Suc s) = fill_times meas (tms[s := meas s]) n (Suc s)"
      using Suc.hyps(2) Suc.prems by (intro Suc.hyps(1)) simp_all
    then show ?thesis
      using True \<open>s < n\<close> Suc.prems
      by (subst tlb_measure.simps, subst fill_times.simps) simp
  next
    case False
    then show ?thesis
      using \<open>s < n\<close> Suc.prems
      by (subst tlb_measure.simps, subst fill_times.simps) (simp add: wr_def)
  qed
qed

lemma line_flat:
  "length nt = 10 \<Longrightarrow> \<forall>i<8. nt ! i = x \<Longrightarrow> line_size_detect nt = Inr 64"
  by (simp add: line_size_detect_def line_scan.simps flat_ratio)

lemma line_cores_flat:
  "length nt = 6 \<Longrightarrow> \<forall>i<6. nt ! i = x \<Longrightarrow> line_size_detect_cores nt = Inr 64"
  by (simp add: line_size_detect_cores_def line_scan.simps flat_ratio)

lemma page_flat:
  "length nt = 8 \<Longrightarrow> \<forall>i<6. nt ! i = x \<Longrightarrow> page_size_detect nt = Inr 4096"
  by (simp add: page_size_detect_def page_scan.simps flat_ratio)

lemma tlb_flat:
  "length nt = 12 \<Longrightarrow> \<forall>i<10. nt ! i = x \<Longrightarrow> tlb_size_detect nt = Inr 64"
  by (simp add: tlb_size_detect_def tlb_scan.simps flat_ratio)

lemma assoc_flat:
  "length nt = 16 \<Longrightarrow> \<forall>i<11. nt ! i = x \<Longrightarrow> associativity_detect nt = Inr 8"
  by (simp add: associativity_detect_def assoc_scan.simps flat_ratio)

section \<open>Line-size detection on synthetic curves\<close>


lemma lit_small: "lit 0 = Finite False 0" "lit 1 = Finite False 1" "lit 3 = Finite False 3"
  by (simp_all add: lit_def round_defs)

lemma lit_c2: "lit (21 / 20) = Finite False (4728779608739021 / 4503599627370496)"
  "lit (7 / 5) = Finite False (3152519739159347 / 2251799813685248)"
  "lit (71 / 50) = Finite False (799388933858263 / 562949953421312)"
  by (simp_all add: lit_def round_defs)

text \<open>
  C2. On the normalized-time curve 1.0, 1.0, 1.05, 1.4, 1.42, 1.0, 1.0, 1.0 over the
  strides 8 to 1024 the detection of \<open>probe_cache_line_size\<close> does not return 128; its
  scan would not return 128 even if \<open>detected\<close> started as 128.
\<close>

theorem synthetic_curve_not_128:
  "line_size_detect (map lit [1, 1, 105 / 100, 14 / 10, 142 / 100, 1, 1, 1] @ [lit 0, lit 0]) \<noteq> Inr 128
   \<and> line_scan strides (map lit [1, 1, 105 / 100, 14 / 10, 142 / 100, 1, 1, 1] @ [lit 0, lit 0])
        (8 - 1) 2 128 \<noteq> Inr 128"
  by (simp add: line_size_detect_def line_scan.simps strides_def lit_small lit_c2 round_defs
      fgt_def sval_def d_1_3_val)

text \<open>
  C2, amended. On that curve the detection returns 64, and it does so because the scan
  stops at stride 64, the first stride whose ratio to its predecessor is above 1.3 and
  whose successor's ratio is below 1.3 (1.4 / 1.05 and 1.42 / 1.4): the scan returns 64
  whatever value \<open>detected\<close> starts with, so 64 is not the default falling through.
  The two cells of \<open>norm_times\<close> behind the sweep do not matter.
\<close>

theorem synthetic_curve_reports_64:
  "line_scan strides (map lit [1, 1, 105 / 100, 14 / 10, 142 / 100, 1, 1, 1] @ [u, v])
     (8 - 1) 2 detected = Inr 64
   \<and> line_size_detect (map lit [1, 1, 105 / 100, 14 / 10, 142 / 100, 1, 1, 1] @ [u, v]) = Inr 64"
  by (simp add: line_size_detect_def line_scan.simps strides_def lit_small lit_c2 round_defs
      fgt_def sval_def d_1_3_val)





section \<open>Defaults, candidates and sweep endpoints\<close>

lemma fill_then:
  assumes "n \<le> length tms" and "\<And>tms'. length tms' = length tms \<Longrightarrow> \<forall>i<n. tms' ! i = meas i \<Longrightarrow> f tms' = r"
  shows "bnd (fill_times meas tms n 0) f = r"
proof -
  from fill_times_result [OF assms(1), of 0 n meas]
  obtain tms' where t: "fill_times meas tms n 0 = Inr tms'" "length tms' = length tms"
      "\<forall>i < length tms. tms' ! i = (if 0 \<le> i \<and> i < n then meas i else tms ! i)"
    by auto
  have "\<forall>i<n. tms' ! i = meas i"
    using t(3) assms(1) by auto
  with t(1,2) assms(2) show ?thesis by simp
qed

text \<open>
  C7. When every measured value of a sweep is the same double \<open>x\<close> (a flat curve),
  the line-size probe of both files returns 64, the associativity probe 8, the page-size
  probe 4096 and the TLB probe 64: each its built-in default.
\<close>

theorem flat_curve_defaults:
  assumes "length norm_times = 10" and "length cores_times = 6" and "length assoc_times = 16"
    and "length page_times = 8" and "length tlb_times = 12"
  shows "probe_cache_line_size True (\<lambda>s. x) norm_times = Inr 64
       \<and> probe_cache_line_size_cores True (\<lambda>s. x) cores_times = Inr 64
       \<and> probe_associativity True (\<lambda>s. x) assoc_times = Inr 8
       \<and> probe_page_size True (\<lambda>s. x) page_times = Inr 4096
       \<and> probe_tlb_size True (\<lambda>t. True) (\<lambda>s. x) tlb_times = Inr 64"
proof -
  have "probe_cache_line_size True (\<lambda>s. x) norm_times = Inr 64"
    unfolding probe_cache_line_size_def
    by (simp, rule fill_then) (use assms(1) in \<open>auto intro: line_flat\<close>)
  moreover have "probe_cache_line_size_cores True (\<lambda>s. x) cores_times = Inr 64"
    unfolding probe_cache_line_size_cores_def
    by (simp, rule fill_then) (use assms(2) in \<open>auto intro: line_cores_flat\<close>)
  moreover have "probe_associativity True (\<lambda>s. x) assoc_times = Inr 8"
    unfolding probe_associativity_def
    by (simp, rule fill_then) (use assms(3) in \<open>auto intro: assoc_flat\<close>)
  moreover have "probe_page_size True (\<lambda>s. x) page_times = Inr 4096"
    unfolding probe_page_size_def
    by (simp, rule fill_then) (use assms(4) in \<open>auto intro: page_flat\<close>)
  moreover have "probe_tlb_size True (\<lambda>t. True) (\<lambda>s. x) tlb_times = Inr 64"
    unfolding probe_tlb_size_def
    by (simp add: tlb_measure_fill, rule fill_then) (use assms(5) in \<open>auto intro: tlb_flat\<close>)
  ultimately show ?thesis by simp
qed

theorem flat_curve_defaults_witness:
  "probe_cache_line_size True (\<lambda>s. d_1_0) (replicate 10 NaN) = Inr 64
   \<and> probe_cache_line_size_cores True (\<lambda>s. d_1_0) (replicate 6 NaN) = Inr 64
   \<and> probe_associativity True (\<lambda>s. d_1_0) (replicate 16 NaN) = Inr 8
   \<and> probe_page_size True (\<lambda>s. d_1_0) (replicate 8 NaN) = Inr 4096
   \<and> probe_tlb_size True (\<lambda>t. True) (\<lambda>s. d_1_0) (replicate 12 NaN) = Inr 64"
  using flat_curve_defaults [of "replicate 10 NaN" "replicate 6 NaN" "replicate 16 NaN"
      "replicate 8 NaN" "replicate 12 NaN" d_1_0]
  by simp










text \<open>
  C10. The line-size scan starts at sweep index 2 and stops before the last index: on
  every content of \<open>norm_times\<close> it returns one of 32, 64, 128, 256, 512 (one of
  32, 64, 128 in the core-class file), never 8, 16 or 1024.
\<close>

theorem line_size_never_sweep_endpoint:
  assumes "length norm_times = 10" and "length cores_times = 6"
  shows "(\<exists>v. line_size_detect norm_times = Inr v \<and> v \<in> {32, 64, 128, 256, 512})
       \<and> (\<exists>v. line_size_detect_cores cores_times = Inr v \<and> v \<in> {32, 64, 128})"
  using line_size_in_range [OF assms(1)] line_size_cores_in_range [OF assms(2)] by blast

theorem line_size_never_sweep_endpoint_witness:
  "(\<exists>v. line_size_detect (map lit [1, 3, 3, 3, 3, 3, 3, 1] @ [lit 0, lit 0]) = Inr v \<and> v \<in> {32, 64, 128, 256, 512})
   \<and> (\<exists>v. line_size_detect_cores (map lit [1, 3, 3, 3, 3, 1]) = Inr v \<and> v \<in> {32, 64, 128})"
  using line_size_never_sweep_endpoint [of "map lit [1, 3, 3, 3, 3, 3, 3, 1] @ [lit 0, lit 0]"
      "map lit [1, 3, 3, 3, 3, 1]"]
  by simp

section \<open>Runs that miss the cycle and the allocation default\<close>

text \<open>
  C1. With two elements and a \<open>rand()\<close> that returns an even number at the one
  shuffle step, \<open>create_pointer_chase\<close> of cache\_info.c leaves cell 1 with what
  \<open>malloc\<close> had left in \<open>chase[1]\<close> (here 1) and the array 1, 1 is no cycle;
  \<open>create_pointer_chase\<close> of cache\_info\_cores.c returns 0, 1, two cycles of
  length one.
\<close>

theorem pointer_chase_two_elements_no_cycle:
  "create_pointer_chase [0, 0] 2 rand_zero True (Some [1, 1]) = Inr [1, 1]
   \<and> \<not> single_cycle [1, 1] 2
   \<and> create_pointer_chase_cores [0, 0] 2 rand_zero = Inr [0, 1]
   \<and> \<not> single_cycle [0, 1] 2"
proof -
  have "create_pointer_chase [0, 0] 2 rand_zero True (Some [1, 1]) = Inr [1, 1]"
    by (simp add: create_pointer_chase_def init_chain.simps link_chase.simps copy_back.simps
        deref_def rand_zero_def Let_def)
  moreover have "\<not> single_cycle [1, 1] 2"
    by (simp add: single_cycle_def cycle_from_def numeral_2_eq_2 upt_conv_Cons)
  moreover have "create_pointer_chase_cores [0, 0] 2 rand_zero = Inr [0, 1]"
    by (simp add: create_pointer_chase_cores_def init_chain.simps rand_zero_def Let_def)
  moreover have "\<not> single_cycle [0, 1] 2"
    by (simp add: single_cycle_def cycle_from_def numeral_2_eq_2 upt_conv_Cons)
  ultimately show ?thesis by simp
qed

text \<open>
  C8. When the first allocation of \<open>probe_cache_sizes\<close> fails, the probe leaves the
  measurement loop and scans \<open>times\<close> as it found it: with 1.0, 2.0 in the first
  two cells it reports an L1 size of 4096 bytes, not the undetected value 0.
\<close>

theorem cache_sizes_scans_uninitialised_times:
  "probe_cache_sizes (alloc_ok_below 0) meas
     (map lit [1, 2, 2, 2, 2, 2, 2, 2, 2, 2, 2, 2, 2, 2, 2, 2,
               2, 2, 2, 2, 2, 2, 2, 2, 2, 2, 2, 2, 2, 2, 2, 2]) = Inr (4096, 0, 0)"
  by (simp add: probe_cache_sizes_def sizes_measure.simps alloc_ok_below_def cache_sizes_detect_def
      size_scan.simps sizes_def lit_def round_defs fgt_def sval_def d_1_3_val d_1_5_val)

section \<open>The vote\<close>

lemma count_equal_result:
  "length results = 10 \<Longrightarrow> i < 10 \<Longrightarrow> 10 - j = n \<Longrightarrow>
   count_equal results i j c = Inr (c + int (count_list (drop j results) (results ! i)))"
proof (induction n arbitrary: j c)
  case 0
  then show ?case by (subst count_equal.simps) simp
next
  case (Suc n)
  then have j: "j < 10" by simp
  have d: "drop j results = results ! j # drop (Suc j) results"
    using j Suc.prems(1) by (simp add: Cons_nth_drop_Suc)
  have "count_equal results i (Suc j) c' =
      Inr (c' + int (count_list (drop (Suc j) results) (results ! i)))" for c'
    using Suc.prems by (intro Suc.IH) simp_all
  then show ?case
    using j Suc.prems(1,2) by (subst count_equal.simps) (simp add: d)
qed

lemma count_equal_total:
  "length results = 10 \<Longrightarrow> i < 10 \<Longrightarrow>
   count_equal results i 0 0 = Inr (int (count_list results (results ! i)))"
  using count_equal_result [of results i 0 10 0] by simp

lemma vote_invariant:
  assumes "length results = 10"
  shows "1 \<le> i \<Longrightarrow> i \<le> 10 \<Longrightarrow> 10 - i = n \<Longrightarrow> k < i \<Longrightarrow>
    m = int (count_list results (results ! k)) \<Longrightarrow>
    (\<forall>j<i. count_list results (results ! j) \<le> count_list results (results ! k)) \<Longrightarrow>
    (\<forall>j<k. count_list results (results ! j) < count_list results (results ! k)) \<Longrightarrow>
    \<exists>k'<10. vote results i m (results ! k) = Inr (results ! k')
      \<and> (\<forall>j<10. count_list results (results ! j) \<le> count_list results (results ! k'))
      \<and> (\<forall>j<k'. count_list results (results ! j) < count_list results (results ! k'))"
proof (induction n arbitrary: i k m)
  case 0
  then have "i = 10" by simp
  with 0 show ?case by (subst vote.simps) auto
next
  case (Suc n)
  then have i: "i < 10" by simp
  let ?c = "\<lambda>j. count_list results (results ! j)"
  show ?case
  proof (cases "?c k < ?c i")
    case True
    have "\<exists>k'<10. vote results (Suc i) (int (?c i)) (results ! i) = Inr (results ! k')
        \<and> (\<forall>j<10. ?c j \<le> ?c k') \<and> (\<forall>j<k'. ?c j < ?c k')"
    proof (rule Suc.IH)
      show "\<forall>j<Suc i. ?c j \<le> ?c i"
        using True Suc.prems(6) by (auto simp: less_Suc_eq intro: order_trans less_imp_le)
      show "\<forall>j<i. ?c j < ?c i"
        using True Suc.prems(6) by (auto intro: le_less_trans)
    qed (use Suc.prems i in simp_all)
    then show ?thesis
      using True i assms Suc.prems(5)
      by (subst vote.simps) (simp add: count_equal_total)
  next
    case False
    have "\<exists>k'<10. vote results (Suc i) m (results ! k) = Inr (results ! k')
        \<and> (\<forall>j<10. ?c j \<le> ?c k') \<and> (\<forall>j<k'. ?c j < ?c k')"
    proof (rule Suc.IH)
      show "\<forall>j<Suc i. ?c j \<le> ?c k"
        using False Suc.prems(6) by (auto simp: less_Suc_eq)
    qed (use Suc.prems i in simp_all)
    then show ?thesis
      using False i assms Suc.prems(5)
      by (subst vote.simps) (simp add: count_equal_total)
  qed
qed

lemma vote_first_step:
  assumes "length results = 10"
  shows "vote results 0 1 (results ! 0) =
         vote results (Suc 0) (int (count_list results (results ! 0))) (results ! 0)"
proof -
  let ?c = "int (count_list results (results ! 0))"
  have "results ! 0 \<in> set results"
    using assms by (intro nth_mem) simp
  then have "count_list results (results ! 0) \<noteq> 0"
    by (simp add: count_list_0_iff)
  then have c: "1 \<le> ?c"
    by simp
  have unfold: "vote results 0 1 (results ! 0) =
      (if 1 < ?c then vote results (Suc 0) ?c (results ! 0)
       else vote results (Suc 0) 1 (results ! 0))"
    using assms by (subst vote.simps) (simp add: count_equal_total)
  show ?thesis
  proof (cases "1 < ?c")
    case True
    with unfold show ?thesis by simp
  next
    case False
    with c have "?c = 1" by linarith
    with unfold show ?thesis by simp
  qed
qed

lemma most_frequent_characterised:
  assumes "length results = 10"
  shows "\<exists>k<10. most_frequent results = Inr (results ! k)
      \<and> (\<forall>j<10. count_list results (results ! j) \<le> count_list results (results ! k))
      \<and> (\<forall>j<k. count_list results (results ! j) < count_list results (results ! k))"
proof -
  have "most_frequent results =
      vote results (Suc 0) (int (count_list results (results ! 0))) (results ! 0)"
    using assms by (simp add: most_frequent_def vote_first_step)
  moreover have "\<exists>k'<10. vote results (Suc 0) (int (count_list results (results ! 0))) (results ! 0)
        = Inr (results ! k')
      \<and> (\<forall>j<10. count_list results (results ! j) \<le> count_list results (results ! k'))
      \<and> (\<forall>j<k'. count_list results (results ! j) < count_list results (results ! k'))"
    by (rule vote_invariant [OF assms, where n = 9]) simp_all
  ultimately show ?thesis by simp
qed

lemma collect_results_result:
  "length buf = 10 \<Longrightarrow> 10 - s = n \<Longrightarrow> \<forall>i<10. run i = Inr (r i) \<Longrightarrow>
   \<exists>buf'. collect_results run buf s = Inr buf' \<and> length buf' = 10 \<and>
     (\<forall>i<10. buf' ! i = (if s \<le> i then r i else buf ! i))"
proof (induction n arbitrary: s buf)
  case 0
  then show ?case by (subst collect_results.simps) auto
next
  case (Suc n)
  then have s: "s < 10" by simp
  have "\<exists>buf'. collect_results run (buf[s := r s]) (Suc s) = Inr buf' \<and> length buf' = 10 \<and>
     (\<forall>i<10. buf' ! i = (if Suc s \<le> i then r i else buf[s := r s] ! i))"
    using Suc.prems by (intro Suc.IH) simp_all
  then obtain buf' where b: "collect_results run (buf[s := r s]) (Suc s) = Inr buf'"
      "length buf' = 10" "\<forall>i<10. buf' ! i = (if Suc s \<le> i then r i else buf[s := r s] ! i)"
    by auto
  have "collect_results run buf s = Inr buf'"
    using s b(1) Suc.prems(1,3) by (subst collect_results.simps) simp
  moreover have "\<forall>i<10. buf' ! i = (if s \<le> i then r i else buf ! i)"
    using b(3) s Suc.prems(1) by (auto simp: nth_list_update Suc_le_eq le_less)
  ultimately show ?case using b(2) by blast
qed

lemma tlb_main_votes:
  assumes "length results = 10" and "length buf = 10"
  shows "tlb_main (\<lambda>i. Inr (results ! i)) buf = most_frequent results"
proof -
  from collect_results_result [OF assms(2), of 0 10 "\<lambda>i. Inr (results ! i)" "\<lambda>i. results ! i"]
  obtain buf' where b: "collect_results (\<lambda>i. Inr (results ! i)) buf 0 = Inr buf'"
      "length buf' = 10" "\<forall>i<10. buf' ! i = results ! i"
    by auto
  have "buf' = results"
    using b(2,3) assms(1) by (intro nth_equalityI) simp_all
  with b(1) show ?thesis by (simp add: tlb_main_def)
qed

text \<open>
  C5. The flow of \<open>main\<close> stores the results of ten runs of \<open>probe_tlb_size\<close> and reports
  a most frequent one: on 64, 64, 128, 64, 64, 64, 32, 64, 64, 128 it reports 64, and on
  any ten results it reports the result at the first index whose value has the highest
  frequency, so of several values tied for the highest frequency the one met first.
\<close>

theorem vote_reports_first_most_frequent:
  assumes "length results = 10" and "length buf = 10"
  shows "most_frequent [64, 64, 128, 64, 64, 64, 32, 64, 64, 128] = Inr 64
       \<and> tlb_main (\<lambda>i. Inr (results ! i)) buf = most_frequent results
       \<and> (\<exists>k<10. most_frequent results = Inr (results ! k)
            \<and> (\<forall>j<10. count_list results (results ! j) \<le> count_list results (results ! k))
            \<and> (\<forall>j<k. count_list results (results ! j) < count_list results (results ! k)))"
proof -
  have "most_frequent [64, 64, 128, 64, 64, 64, 32, 64, 64, 128] = Inr 64"
    by (simp add: most_frequent_def vote.simps count_equal.simps)
  with tlb_main_votes [OF assms] most_frequent_characterised [OF assms(1)]
  show ?thesis by simp
qed

theorem vote_reports_first_most_frequent_witness:
  "tlb_main (\<lambda>i. Inr ([16, 32, 32, 16, 8, 8, 64, 64, 128, 256] ! i)) (replicate 10 0)
     = most_frequent [16, 32, 32, 16, 8, 8, 64, 64, 128, 256]
   \<and> most_frequent [16, 32, 32, 16, 8, 8, 64, 64, 128, 256] = Inr 16"
proof -
  have "most_frequent [16, 32, 32, 16, 8, 8, 64, 64, 128, 256] = Inr 16"
    by (simp add: most_frequent_def vote.simps count_equal.simps)
  with vote_reports_first_most_frequent [of "[16, 32, 32, 16, 8, 8, 64, 64, 128, 256]" "replicate 10 0"]
  show ?thesis by simp
qed

section \<open>Largest ratio and first ratio above a threshold\<close>

lemma none_above_iff:
  "none_above tms thr n \<longleftrightarrow> (\<forall>u. 1 \<le> u \<and> u < n \<longrightarrow> \<not> fgt (ratio_at tms u) thr)"
  by (auto simp: none_above_def list_all_iff)

lemma largest_above_iff:
  "largest_above tms thr n t \<longleftrightarrow>
     1 \<le> t \<and> t < n \<and> fgt (ratio_at tms t) thr
     \<and> (\<forall>u. 1 \<le> u \<and> u < n \<longrightarrow> \<not> fgt (ratio_at tms u) (ratio_at tms t))
     \<and> (\<forall>u. 1 \<le> u \<and> u < t \<longrightarrow> fgt (ratio_at tms t) (ratio_at tms u) \<or> ratio_at tms u = NaN)"
  by (auto simp: largest_above_def list_all_iff)

lemma none_above_step:
  assumes "none_above tms thr t" and "\<not> fgt (ratio_at tms t) thr"
  shows "none_above tms thr (Suc t)"
  using assms by (auto simp: none_above_iff less_Suc_eq)

lemma largest_above_new:
  assumes "1 \<le> t" and "fgt (ratio_at tms t) thr"
    and "\<forall>u. 1 \<le> u \<and> u < t \<longrightarrow> \<not> fgt (ratio_at tms u) b"
    and "fgt (ratio_at tms t) b"
  shows "largest_above tms thr (Suc t) t"
proof -
  have "\<not> fgt (ratio_at tms u) (ratio_at tms t)" if "1 \<le> u" "u < Suc t" for u
  proof (cases "u = t")
    case True
    then show ?thesis by (simp add: fgt_irrefl)
  next
    case False
    with that have "\<not> fgt (ratio_at tms u) b" using assms(3) by simp
    then show ?thesis using assms(4) fgt_trans by blast
  qed
  moreover have "fgt (ratio_at tms t) (ratio_at tms u) \<or> ratio_at tms u = NaN"
    if "1 \<le> u" "u < t" for u
  proof -
    from that have "\<not> fgt (ratio_at tms u) b" using assms(3) by simp
    then show ?thesis using assms(4) fgt_below by blast
  qed
  ultimately show ?thesis
    using assms(1,2) by (simp add: largest_above_iff)
qed

lemma largest_above_keep:
  assumes "largest_above tms thr t j" and "\<not> fgt (ratio_at tms t) (ratio_at tms j)"
  shows "largest_above tms thr (Suc t) j"
  using assms by (auto simp: largest_above_iff less_Suc_eq)

lemma assoc_scan_invariant:
  assumes "length tms = 16"
  shows "1 \<le> t \<Longrightarrow> t \<le> 11 \<Longrightarrow> 11 - t = n \<Longrightarrow>
    (m = d_1_0 \<and> d = 8 \<and> none_above tms d_1_3 t)
      \<or> (\<exists>j. largest_above tms d_1_3 t j \<and> m = ratio_at tms j \<and> d = ways_to_test ! (j - 1)) \<Longrightarrow>
    (assoc_scan tms 11 t m d = Inr 8 \<and> none_above tms d_1_3 11)
      \<or> (\<exists>j. largest_above tms d_1_3 11 j \<and> assoc_scan tms 11 t m d = Inr (ways_to_test ! (j - 1)))"
proof (induction n arbitrary: t m d)
  case 0
  then have "t = 11" by simp
  moreover have "assoc_scan tms 11 11 m d = Inr d"
    by (subst assoc_scan.simps) simp
  ultimately show ?case using 0 by auto
next
  case (Suc n)
  then have t: "t < 11" "1 \<le> t" by simp_all
  let ?r = "ratio_at tms t"
  have len: "length ways_to_test = 11" by (simp add: ways_to_test_def)
  have unfold: "assoc_scan tms 11 t m d =
      (if fgt ?r m \<and> fgt ?r d_1_3 then assoc_scan tms 11 (Suc t) ?r (ways_to_test ! (t - 1))
       else assoc_scan tms 11 (Suc t) m d)"
    using t assms by (subst assoc_scan.simps) (simp add: Let_def ratio_at_def len del: fdiv.simps)
  show ?case
  proof (cases "fgt ?r m \<and> fgt ?r d_1_3")
    case True
    have "largest_above tms d_1_3 (Suc t) t"
      using Suc.prems(4)
    proof (elim disjE conjE exE)
      assume "m = d_1_0" "none_above tms d_1_3 t"
      then show ?thesis
        using True t(2) by (intro largest_above_new [where b = d_1_3]) (simp_all add: none_above_iff)
    next
      fix j assume "largest_above tms d_1_3 t j" "m = ratio_at tms j"
      then show ?thesis
        using True t(2) by (intro largest_above_new [where b = "ratio_at tms j"])
          (simp_all add: largest_above_iff)
    qed
    then have "(?r = d_1_0 \<and> ways_to_test ! (t - 1) = 8 \<and> none_above tms d_1_3 (Suc t))
      \<or> (\<exists>j. largest_above tms d_1_3 (Suc t) j \<and> ?r = ratio_at tms j
            \<and> ways_to_test ! (t - 1) = ways_to_test ! (j - 1))"
      by blast
    then have "(assoc_scan tms 11 (Suc t) ?r (ways_to_test ! (t - 1)) = Inr 8 \<and> none_above tms d_1_3 11)
      \<or> (\<exists>j. largest_above tms d_1_3 11 j
            \<and> assoc_scan tms 11 (Suc t) ?r (ways_to_test ! (t - 1)) = Inr (ways_to_test ! (j - 1)))"
      using Suc.prems(1,2,3) t by (intro Suc.IH) simp_all
    moreover have "assoc_scan tms 11 t m d = assoc_scan tms 11 (Suc t) ?r (ways_to_test ! (t - 1))"
      using True by (simp only: unfold if_True simp_thms)
    ultimately show ?thesis by (simp only:)
  next
    case False
    have "(m = d_1_0 \<and> d = 8 \<and> none_above tms d_1_3 (Suc t))
      \<or> (\<exists>j. largest_above tms d_1_3 (Suc t) j \<and> m = ratio_at tms j \<and> d = ways_to_test ! (j - 1))"
      using Suc.prems(4)
    proof (elim disjE conjE exE)
      assume a: "m = d_1_0" "d = 8" "none_above tms d_1_3 t"
      have "\<not> fgt ?r d_1_3"
        using False a(1) fgt_trans [OF _ d_1_3_above_1_0] by blast
      with a show ?thesis by (simp add: none_above_step)
    next
      fix j assume a: "largest_above tms d_1_3 t j" "m = ratio_at tms j" "d = ways_to_test ! (j - 1)"
      then have "fgt (ratio_at tms j) d_1_3" by (simp add: largest_above_iff)
      then have "\<not> fgt ?r (ratio_at tms j)"
        using False a(2) fgt_trans by blast
      with a show ?thesis using largest_above_keep by blast
    qed
    then have "(assoc_scan tms 11 (Suc t) m d = Inr 8 \<and> none_above tms d_1_3 11)
      \<or> (\<exists>j. largest_above tms d_1_3 11 j
            \<and> assoc_scan tms 11 (Suc t) m d = Inr (ways_to_test ! (j - 1)))"
      using Suc.prems(1,2,3) t by (intro Suc.IH) simp_all
    moreover have "assoc_scan tms 11 t m d = assoc_scan tms 11 (Suc t) m d"
      using False by (simp only: unfold if_False simp_thms)
    ultimately show ?thesis by (simp only:)
  qed
qed

lemma associativity_global_max:
  assumes "length tms = 16"
  shows "(associativity_detect tms = Inr 8 \<and> none_above tms d_1_3 11)
      \<or> (\<exists>j. largest_above tms d_1_3 11 j \<and> associativity_detect tms = Inr (ways_to_test ! (j - 1)))"
  unfolding associativity_detect_def
  by (rule assoc_scan_invariant [OF assms, where n = 10]) (simp_all add: none_above_def)

lemma tlb_scan_first:
  assumes "length tms = 12"
  shows "1 \<le> t \<Longrightarrow> t \<le> 10 \<Longrightarrow> 10 - t = n \<Longrightarrow>
    tlb_scan tms 10 t 64 =
      (case find (\<lambda>t. fgt (ratio_at tms t) d_1_25) [t..<10] of
         None \<Rightarrow> Inr 64 | Some u \<Rightarrow> Inr (pages_to_test ! (u - 1)))"
proof (induction n arbitrary: t)
  case 0
  then show ?case by (subst tlb_scan.simps) simp
next
  case (Suc n)
  then have t: "t < 10" "1 \<le> t" by simp_all
  have len: "length pages_to_test = 10" by (simp add: pages_to_test_def)
  have "tlb_scan tms 10 (Suc t) 64 =
      (case find (\<lambda>t. fgt (ratio_at tms t) d_1_25) [Suc t..<10] of
         None \<Rightarrow> Inr 64 | Some u \<Rightarrow> Inr (pages_to_test ! (u - 1)))"
    using Suc.prems by (intro Suc.IH) simp_all
  then show ?case
    using t assms
    by (subst tlb_scan.simps) (simp add: Let_def ratio_at_def len upt_conv_Cons del: fdiv.simps)
qed

lemma tlb_first_match:
  assumes "length tms = 12"
  shows "tlb_size_detect tms =
      (case first_above tms d_1_25 10 of None \<Rightarrow> Inr 64 | Some t \<Rightarrow> Inr (pages_to_test ! (t - 1)))"
  unfolding tlb_size_detect_def first_above_def
  using tlb_scan_first [OF assms, of 1 9] by simp

lemma lit_tlb: "lit 2 = Finite False 2" "lit 9 = Finite False 9"
  by (simp_all add: lit_def round_defs)

lemma ratios_tlb:
  "fdiv (Finite False 3) (Finite False 2) = Finite False (3 / 2)"
  "fdiv (Finite False 9) (Finite False 3) = Finite False 3"
  "fdiv (Finite False 9) (Finite False 9) = Finite False 1"
  by (simp_all add: round_defs)

text \<open>
  C6. On the TLB curve 2, 3, 9, 9, ... the largest ratio is the one at index 2 (3.0, above
  1.25), whose preceding configuration is 16 pages; the detection of \<open>probe_tlb_size\<close>
  returns 8, the configuration before the first ratio above 1.25.
\<close>

theorem tlb_detect_not_global_max:
  "tlb_size_detect (map lit [2, 3, 9, 9, 9, 9, 9, 9, 9, 9, 9, 9]) = Inr 8
   \<and> largest_above (map lit [2, 3, 9, 9, 9, 9, 9, 9, 9, 9, 9, 9]) d_1_25 10 2
   \<and> rd pages_to_test (2 - 1) = Inr 16"
proof -
  have "tlb_size_detect (map lit [2, 3, 9, 9, 9, 9, 9, 9, 9, 9, 9, 9]) = Inr 8"
    by (simp add: tlb_size_detect_def tlb_scan.simps pages_to_test_def lit_small lit_tlb ratios_tlb
        fgt_def sval_def d_1_25_val del: fdiv.simps)
  moreover have "largest_above (map lit [2, 3, 9, 9, 9, 9, 9, 9, 9, 9, 9, 9]) d_1_25 10 2"
    by (simp add: largest_above_def ratio_at_def upt_conv_Cons lit_small lit_tlb ratios_tlb
        fgt_def sval_def d_1_25_val del: fdiv.simps)
  moreover have "rd pages_to_test (2 - 1) = Inr 16"
    by (simp add: pages_to_test_def)
  ultimately show ?thesis by simp
qed

text \<open>
  C6, amended. The detection of \<open>probe_associativity\<close> is a global-maximum strategy: it
  returns the configuration before the first occurrence of the largest ratio when that
  ratio is above 1.3, and 8 when no ratio is above 1.3. The detection of \<open>probe_tlb_size\<close>
  is a first-match strategy: it returns the configuration before the first ratio above
  1.25, and 64 when there is none.
\<close>

theorem assoc_global_max_tlb_first_match:
  assumes "length assoc_times = 16" and "length tlb_times = 12"
  shows "((associativity_detect assoc_times = Inr 8 \<and> none_above assoc_times d_1_3 11)
          \<or> (\<exists>t. largest_above assoc_times d_1_3 11 t
                \<and> associativity_detect assoc_times = Inr (ways_to_test ! (t - 1))))
       \<and> tlb_size_detect tlb_times =
           (case first_above tlb_times d_1_25 10 of
              None \<Rightarrow> Inr 64 | Some t \<Rightarrow> Inr (pages_to_test ! (t - 1)))"
  using associativity_global_max [OF assms(1)] tlb_first_match [OF assms(2)] by simp

theorem assoc_global_max_tlb_first_match_witness:
  "((associativity_detect (map lit [2, 3, 9, 9, 9, 9, 9, 9, 9, 9, 9, 9, 9, 9, 9, 9]) = Inr 8 \<and> none_above (map lit [2, 3, 9, 9, 9, 9, 9, 9, 9, 9, 9, 9, 9, 9, 9, 9]) d_1_3 11)
          \<or> (\<exists>t. largest_above (map lit [2, 3, 9, 9, 9, 9, 9, 9, 9, 9, 9, 9, 9, 9, 9, 9]) d_1_3 11 t
                \<and> associativity_detect (map lit [2, 3, 9, 9, 9, 9, 9, 9, 9, 9, 9, 9, 9, 9, 9, 9]) = Inr (ways_to_test ! (t - 1))))
       \<and> tlb_size_detect (map lit [2, 3, 9, 9, 9, 9, 9, 9, 9, 9, 9, 9]) =
           (case first_above (map lit [2, 3, 9, 9, 9, 9, 9, 9, 9, 9, 9, 9]) d_1_25 10 of
              None \<Rightarrow> Inr 64 | Some t \<Rightarrow> Inr (pages_to_test ! (t - 1)))"
proof -
  have "length (map lit [2, 3, 9, 9, 9, 9, 9, 9, 9, 9, 9, 9, 9, 9, 9, 9]) = 16" "length (map lit [2, 3, 9, 9, 9, 9, 9, 9, 9, 9, 9, 9]) = 12"
    by simp_all
  then show ?thesis by (rule assoc_global_max_tlb_first_match)
qed

section \<open>The tiers of the cache-size scan\<close>

lemma sizes_length: "length sizes = 24"
  by (simp add: sizes_def)

lemma sizes_increasing: "i < j \<Longrightarrow> j < 24 \<Longrightarrow> sizes ! i < sizes ! j"
proof -
  have "sorted_wrt (<) sizes"
    by (simp add: sizes_def)
  then show "i < j \<Longrightarrow> j < 24 \<Longrightarrow> sizes ! i < sizes ! j"
    by (simp add: sorted_wrt_nth_less sizes_length)
qed

lemma sizes_positive: "i < 24 \<Longrightarrow> 0 < sizes ! i"
proof -
  assume "i < 24"
  then have "sizes ! i \<in> set sizes"
    by (simp add: sizes_length)
  then show ?thesis
    by (auto simp: sizes_def)
qed

lemma find_app:
  "find P (xs @ ys) = (case find P xs of None \<Rightarrow> find P ys | Some x \<Rightarrow> Some x)"
  by (induction xs) auto

lemma find_upt_Some:
  "find q [1..<n] = Some u \<Longrightarrow> 1 \<le> u \<and> u < n \<and> q u \<and> (\<forall>v. 1 \<le> v \<and> v < u \<longrightarrow> \<not> q v)"
proof -
  assume "find q [1..<n] = Some u"
  then obtain i where i: "i < length [1..<n]" "q ([1..<n] ! i)" "u = [1..<n] ! i"
      "\<forall>j<i. \<not> q ([1..<n] ! j)"
    unfolding find_Some_iff by blast
  from i(1) have u: "u = 1 + i" "i < n - 1"
    using i(3) by simp_all
  have "\<not> q v" if "1 \<le> v" "v < u" for v
  proof -
    from that u have "v - 1 < i" "[1..<n] ! (v - 1) = v" by simp_all
    with i(4) show ?thesis by metis
  qed
  with i(2,3) u show ?thesis by auto
qed

lemma find_upt_None: "find q [1..<n] = None \<longleftrightarrow> (\<forall>v. 1 \<le> v \<and> v < n \<longrightarrow> \<not> q v)"
  by (auto simp: find_None_iff)

lemma find_upt_first:
  assumes "1 \<le> u" and "u < n" and "q u" and "\<forall>v. 1 \<le> v \<and> v < u \<longrightarrow> \<not> q v"
  shows "find q [1..<n] = Some u"
proof (cases "find q [1..<n]")
  case None
  then have "\<not> q u"
    using assms(1,2) unfolding find_upt_None by blast
  with assms(3) show ?thesis by simp
next
  case (Some w)
  from find_upt_Some [OF Some] have w: "1 \<le> w" "w < n" "q w" "\<forall>v. 1 \<le> v \<and> v < w \<longrightarrow> \<not> q v"
    by simp_all
  have "w = u"
  proof (rule ccontr)
    assume "w \<noteq> u"
    then consider "w < u" | "u < w" by linarith
    then show False
    proof cases
      case 1
      with assms(4) w(1,3) show False by simp
    next
      case 2
      with w(4) assms(1,3) show False by simp
    qed
  qed
  with Some show ?thesis by simp
qed

lemma tier_below_Suc:
  "1 \<le> s \<Longrightarrow> tier_below q (Suc s) =
     (case find q [1..<s] of Some u \<Rightarrow> sizes ! (u - 1)
      | None \<Rightarrow> if q s then sizes ! (s - 1) else 0)"
  by (simp add: tier_below_def find_app upt_Suc_append split: option.splits del: One_nat_def)

lemma tier_below_zero_iff:
  assumes "s \<le> 24"
  shows "tier_below q s = 0 \<longleftrightarrow> find q [1..<s] = None"
proof (cases "find q [1..<s]")
  case None
  then show ?thesis by (simp add: tier_below_def)
next
  case (Some u)
  from find_upt_Some [OF Some] assms have "u - 1 < 24" by linarith
  then have "0 < sizes ! (u - 1)" by (rule sizes_positive)
  with Some show ?thesis by (simp add: tier_below_def)
qed

lemma tier_below_keep:
  assumes "1 \<le> s" and "tier_below q s \<noteq> 0 \<or> \<not> q s"
  shows "tier_below q (Suc s) = tier_below q s"
proof (cases "find q [1..<s]")
  case None
  then have z: "tier_below q s = 0" by (simp add: tier_below_def)
  with assms(2) have "\<not> q s" by simp
  with None assms(1) have "tier_below q (Suc s) = 0"
    by (simp add: tier_below_Suc del: One_nat_def)
  with z show ?thesis by simp
next
  case (Some u)
  then have "tier_below q s = sizes ! (u - 1)" by (simp add: tier_below_def)
  moreover from Some assms(1) have "tier_below q (Suc s) = sizes ! (u - 1)"
    by (simp add: tier_below_Suc del: One_nat_def)
  ultimately show ?thesis by simp
qed

lemma tier_below_latch:
  assumes "1 \<le> s" and "tier_below q s = 0" and "q s" and "s < 24"
  shows "tier_below q (Suc s) = sizes ! (s - 1)"
proof -
  from assms(2,4) have "find q [1..<s] = None"
    by (simp add: tier_below_zero_iff)
  with assms(1,3) show ?thesis by (simp add: tier_below_Suc del: One_nat_def)
qed

lemma first_l2_not_here:
  assumes "tier_below q s \<noteq> 0 \<or> \<not> q s" and "s \<le> 24"
  shows "find q [1..<24] \<noteq> Some s"
proof
  assume "find q [1..<24] = Some s"
  from find_upt_Some [OF this] have s: "q s" "\<forall>v. 1 \<le> v \<and> v < s \<longrightarrow> \<not> q v"
    by simp_all
  with assms(1) have "tier_below q s \<noteq> 0" by simp
  then have "find q [1..<s] \<noteq> None"
    using assms(2) by (simp add: tier_below_zero_iff)
  then obtain u where "find q [1..<s] = Some u" by auto
  from find_upt_Some [OF this] s(2) show False by blast
qed

lemma first_l2_here:
  assumes "tier_below q s = 0" and "q s" and "1 \<le> s" and "s < 24"
  shows "find q [1..<24] = Some s"
proof -
  from assms(1,4) have "find q [1..<s] = None"
    by (simp add: tier_below_zero_iff)
  then have "\<forall>v. 1 \<le> v \<and> v < s \<longrightarrow> \<not> q v"
    by (simp only: find_upt_None)
  with assms(2,3,4) show ?thesis
    by (intro find_upt_first) simp_all
qed

lemma size_scan_unfold:
  assumes "length tms = 32" and "1 \<le> s" and "s < 24"
  shows "size_scan tms 24 s (l1, l2, l3) =
    (if l1 = 0 \<and> l1_jump tms s then size_scan tms 24 (Suc s) (sizes ! (s - 1), l2, l3)
     else if l2 = 0 \<and> l2_jump tms s then size_scan tms 24 (Suc s) (l1, sizes ! (s - 1), l3)
     else if l3 = 0 \<and> l3_jump tms s then size_scan tms 24 (Suc s) (l1, l2, sizes ! (s - 1))
     else size_scan tms 24 (Suc s) (l1, l2, l3))"
  using assms
  by (subst size_scan.simps)
    (simp add: Let_def ratio_at_def l1_jump_def l2_jump_def l3_jump_def sizes_length del: fdiv.simps)

lemma jump_ranges:
  "l1_jump tms s \<Longrightarrow> \<not> l2_jump tms s"
  "l1_jump tms s \<Longrightarrow> \<not> l3_jump tms s"
  "l2_jump tms s \<Longrightarrow> \<not> l1_jump tms s"
  by (simp_all add: l1_jump_def l2_jump_def l3_jump_def)

lemma size_scan_invariant:
  assumes "length tms = 32"
  shows "1 \<le> s \<Longrightarrow> s \<le> 24 \<Longrightarrow> 24 - s = n \<Longrightarrow>
    size_scan tms 24 s (tier_below (l1_jump tms) s, tier_below (l2_jump tms) s,
                        tier_below (l3_jump_left tms) s)
    = Inr (tier (l1_jump tms), tier (l2_jump tms), tier (l3_jump_left tms))"
proof (induction n arbitrary: s)
  case 0
  then have "s = 24" by simp
  then show ?case by (subst size_scan.simps) (simp add: tier_def)
next
  case (Suc n)
  then have s: "1 \<le> s" "s < 24" "s \<le> 24" by simp_all
  let ?T1 = "tier_below (l1_jump tms)" and ?T2 = "tier_below (l2_jump tms)"
    and ?T3 = "tier_below (l3_jump_left tms)"
  have IH: "size_scan tms 24 (Suc s) (?T1 (Suc s), ?T2 (Suc s), ?T3 (Suc s))
      = Inr (tier (l1_jump tms), tier (l2_jump tms), tier (l3_jump_left tms))"
    using Suc.prems by (intro Suc.IH) simp_all
  note unfold = size_scan_unfold [OF assms s(1,2), of "?T1 s" "?T2 s" "?T3 s"]
  show ?case
  proof (cases "?T1 s = 0 \<and> l1_jump tms s")
    case True
    then have "?T1 (Suc s) = sizes ! (s - 1)"
      using s by (simp add: tier_below_latch)
    moreover have "?T2 (Suc s) = ?T2 s"
      using True s jump_ranges(1) by (intro tier_below_keep) auto
    moreover have "?T3 (Suc s) = ?T3 s"
      using True s jump_ranges(2) by (intro tier_below_keep) (auto simp: l3_jump_left_def)
    ultimately show ?thesis
      using True IH unfold by (simp only: if_True simp_thms)
  next
    case no1: False
    then have T1: "?T1 (Suc s) = ?T1 s"
      using s by (intro tier_below_keep) auto
    show ?thesis
    proof (cases "?T2 s = 0 \<and> l2_jump tms s")
      case True
      then have "?T2 (Suc s) = sizes ! (s - 1)"
        using s by (simp add: tier_below_latch)
      moreover have "find (l2_jump tms) [1..<24] = Some s"
        using True s by (intro first_l2_here) simp_all
      then have "\<not> l3_jump_left tms s"
        by (simp add: l3_jump_left_def)
      then have "?T3 (Suc s) = ?T3 s"
        using s by (intro tier_below_keep) auto
      ultimately show ?thesis
        using no1 True T1 IH unfold by (simp only: if_True if_False simp_thms)
    next
      case no2: False
      then have T2: "?T2 (Suc s) = ?T2 s"
        using s by (intro tier_below_keep) auto
      from no2 have not_first: "find (l2_jump tms) [1..<24] \<noteq> Some s"
        using s by (intro first_l2_not_here) auto
      show ?thesis
      proof (cases "?T3 s = 0 \<and> l3_jump tms s")
        case True
        with not_first have "l3_jump_left tms s"
          by (simp add: l3_jump_left_def)
        with True have "?T3 (Suc s) = sizes ! (s - 1)"
          using s by (simp add: tier_below_latch)
        then show ?thesis
          using no1 no2 True T1 T2 IH unfold by (simp only: if_True if_False simp_thms)
      next
        case no3: False
        then have "?T3 s \<noteq> 0 \<or> \<not> l3_jump_left tms s"
          by (auto simp: l3_jump_left_def)
        then have "?T3 (Suc s) = ?T3 s"
          using s by (intro tier_below_keep) auto
        then show ?thesis
          using no1 no2 no3 T1 T2 IH unfold by (simp only: if_False simp_thms)
      qed
    qed
  qed
qed

lemma cache_sizes_tiers:
  assumes "length tms = 32"
  shows "cache_sizes_detect tms =
         Inr (tier (l1_jump tms), tier (l2_jump tms), tier (l3_jump_left tms))"
  using size_scan_invariant [OF assms, of 1 23]
  by (simp add: cache_sizes_detect_def tier_below_def)

lemma tier_nonzero:
  assumes "tier q \<noteq> 0"
  shows "\<exists>u. 1 \<le> u \<and> u < 24 \<and> q u \<and> (\<forall>v. 1 \<le> v \<and> v < u \<longrightarrow> \<not> q v) \<and> tier q = sizes ! (u - 1)"
proof (cases "find q [1..<24]")
  case None
  with assms show ?thesis by (simp add: tier_def tier_below_def)
next
  case (Some u)
  then have "tier q = sizes ! (u - 1)" by (simp add: tier_def tier_below_def)
  with find_upt_Some [OF Some] show ?thesis by blast
qed

lemma tier_none:
  "list_all (\<lambda>s. \<not> q s) [1..<24] \<Longrightarrow> tier q = 0"
proof -
  assume "list_all (\<lambda>s. \<not> q s) [1..<24]"
  then have "find q [1..<24] = None"
    by (simp add: find_None_iff list_all_iff del: One_nat_def)
  then show ?thesis by (simp add: tier_def tier_below_def)
qed

lemma tier_order:
  "tier (l1_jump tms) \<noteq> 0 \<and> tier (l2_jump tms) \<noteq> 0 \<longrightarrow> tier (l1_jump tms) < tier (l2_jump tms)"
  "tier (l1_jump tms) \<noteq> 0 \<and> tier (l3_jump_left tms) \<noteq> 0 \<longrightarrow> tier (l1_jump tms) < tier (l3_jump_left tms)"
  "tier (l2_jump tms) \<noteq> 0 \<and> tier (l3_jump_left tms) \<noteq> 0 \<longrightarrow> tier (l2_jump tms) < tier (l3_jump_left tms)"
proof -
  show "tier (l1_jump tms) \<noteq> 0 \<and> tier (l2_jump tms) \<noteq> 0 \<longrightarrow> tier (l1_jump tms) < tier (l2_jump tms)"
    using tier_nonzero [of "l1_jump tms"] tier_nonzero [of "l2_jump tms"]
    by (auto simp: l1_jump_def l2_jump_def)
  show "tier (l1_jump tms) \<noteq> 0 \<and> tier (l3_jump_left tms) \<noteq> 0 \<longrightarrow> tier (l1_jump tms) < tier (l3_jump_left tms)"
    using tier_nonzero [of "l1_jump tms"] tier_nonzero [of "l3_jump_left tms"]
    by (auto simp: l1_jump_def l3_jump_left_def l3_jump_def)
  show "tier (l2_jump tms) \<noteq> 0 \<and> tier (l3_jump_left tms) \<noteq> 0 \<longrightarrow> tier (l2_jump tms) < tier (l3_jump_left tms)"
  proof
    assume nz: "tier (l2_jump tms) \<noteq> 0 \<and> tier (l3_jump_left tms) \<noteq> 0"
    from tier_nonzero [of "l2_jump tms"] nz obtain u2 where u2: "1 \<le> u2" "u2 < 24" "l2_jump tms u2"
        "\<forall>v. 1 \<le> v \<and> v < u2 \<longrightarrow> \<not> l2_jump tms v" "tier (l2_jump tms) = sizes ! (u2 - 1)"
      by blast
    from tier_nonzero [of "l3_jump_left tms"] nz obtain u3 where u3: "1 \<le> u3" "u3 < 24"
        "l3_jump_left tms u3" "tier (l3_jump_left tms) = sizes ! (u3 - 1)"
      by blast
    have first: "find (l2_jump tms) [1..<24] = Some u2"
      using u2 by (intro find_upt_first) simp_all
    with u3(3) have ne: "u3 \<noteq> u2" and j3: "l3_jump tms u3"
      by (auto simp: l3_jump_left_def)
    have "\<not> u3 < u2"
    proof
      assume less: "u3 < u2"
      then have "sizes ! (u3 - 1) < sizes ! (u2 - 1)"
        using u3(1) u2(2) by (intro sizes_increasing) linarith+
      moreover have "fgt (ratio_at tms u3) d_1_3"
        using j3 fgt_trans [OF _ d_1_5_above_1_3] by (simp add: l3_jump_def)
      ultimately have "l2_jump tms u3"
        using j3 u2(3) by (simp add: l2_jump_def l3_jump_def)
      with u2(4) u3(1) less show False by simp
    qed
    with ne have "u2 < u3" by simp
    then have "sizes ! (u2 - 1) < sizes ! (u3 - 1)"
      using u2(1) u3(2) by (intro sizes_increasing) linarith+
    with u2(5) u3(4) show "tier (l2_jump tms) < tier (l3_jump_left tms)" by simp
  qed
qed

lemma round_double_two: "round_double s 2 = Finite s 2"
  by (simp add: round_defs)

lemma lit_sizes: "lit 4 = Finite False 4" "lit 8 = Finite False 8"
  by (simp_all add: lit_def round_defs)

lemmas eval_sizes = lit_small lit_tlb lit_sizes round_double_one round_double_two fgt_def sval_def
  d_1_3_val d_1_5_val sizes_def

text \<open>
  C4. On a curve with a ratio of 2 at the indices 19 and 20 (prior footprints 6 MiB and
  8 MiB) the scan returns L2 = 6 MiB and L3 = 8 MiB, while the first jump that qualifies
  for L3 (ratio above 1.5, prior footprint above 4 MiB) is the one at 6 MiB.
\<close>

theorem l3_latched_after_first_l3_jump:
  "cache_sizes_detect
     (map lit [1, 1, 1, 1, 1, 1, 1, 1, 1, 1, 1, 1, 1, 1, 1, 1, 1, 1, 1, 2, 4, 4, 4, 4,
     1, 1, 1, 1, 1, 1, 1, 1]) = Inr (0, 6291456, 8388608)
   \<and> tier (l3_jump
     (map lit [1, 1, 1, 1, 1, 1, 1, 1, 1, 1, 1, 1, 1, 1, 1, 1, 1, 1, 1, 2, 4, 4, 4, 4,
     1, 1, 1, 1, 1, 1, 1, 1])) = 6291456"
proof -
  have "cache_sizes_detect
     (map lit [1, 1, 1, 1, 1, 1, 1, 1, 1, 1, 1, 1, 1, 1, 1, 1, 1, 1, 1, 2, 4, 4, 4, 4,
     1, 1, 1, 1, 1, 1, 1, 1]) = Inr (0, 6291456, 8388608)"
    by (simp add: cache_sizes_detect_def size_scan.simps eval_sizes)
  moreover have "tier (l3_jump
     (map lit [1, 1, 1, 1, 1, 1, 1, 1, 1, 1, 1, 1, 1, 1, 1, 1, 1, 1, 1, 2, 4, 4, 4, 4,
     1, 1, 1, 1, 1, 1, 1, 1])) = 6291456"
    by (simp add: tier_def tier_below_def l3_jump_def ratio_at_def upt_conv_Cons eval_sizes)
  ultimately show ?thesis by simp
qed

text \<open>
  C4, amended. On every content of \<open>times\<close> the scan returns the three tiers; those that
  are nonzero are strictly increasing; a tier with no qualifying jump is 0; L1 and L2 are
  the footprint before their first qualifying jump, and L3 is the footprint before the
  first jump that qualifies for L3 and is not the first L2 jump (a jump with a prior
  footprint above 4 MiB and at most 16 MiB goes to L2 while L2 is unset).
\<close>

theorem cache_size_tiers_latched_in_order:
  assumes "length tms = 32"
  shows "\<exists>l1 l2 l3. cache_sizes_detect tms = Inr (l1, l2, l3)
     \<and> l1 = tier (l1_jump tms) \<and> l2 = tier (l2_jump tms) \<and> l3 = tier (l3_jump_left tms)
     \<and> (l1 \<noteq> 0 \<and> l2 \<noteq> 0 \<longrightarrow> l1 < l2) \<and> (l2 \<noteq> 0 \<and> l3 \<noteq> 0 \<longrightarrow> l2 < l3)
     \<and> (l1 \<noteq> 0 \<and> l3 \<noteq> 0 \<longrightarrow> l1 < l3)
     \<and> (list_all (\<lambda>s. \<not> l1_jump tms s) [1..<24] \<longrightarrow> l1 = 0)
     \<and> (list_all (\<lambda>s. \<not> l2_jump tms s) [1..<24] \<longrightarrow> l2 = 0)
     \<and> (list_all (\<lambda>s. \<not> l3_jump tms s) [1..<24] \<longrightarrow> l3 = 0)"
proof -
  have "list_all (\<lambda>s. \<not> l3_jump tms s) [1..<24] \<longrightarrow> tier (l3_jump_left tms) = 0"
  proof
    assume "list_all (\<lambda>s. \<not> l3_jump tms s) [1..<24]"
    then have "list_all (\<lambda>s. \<not> l3_jump_left tms s) [1..<24]"
      by (simp add: list_all_iff l3_jump_left_def del: One_nat_def)
    then show "tier (l3_jump_left tms) = 0" by (rule tier_none)
  qed
  then show ?thesis
    using cache_sizes_tiers [OF assms] tier_order [of tms]
      tier_none [of "l1_jump tms"] tier_none [of "l2_jump tms"]
    by blast
qed

theorem cache_size_tiers_latched_in_order_witness:
  "cache_sizes_detect
     (map lit [1, 1, 1, 1, 2, 2, 2, 2, 2, 2, 2, 2, 2, 2, 4, 4, 4, 4, 4, 4, 4, 4, 8, 8,
     1, 1, 1, 1, 1, 1, 1, 1]) = Inr (32768, 1048576, 16777216)
   \<and> tier (l1_jump
     (map lit [1, 1, 1, 1, 2, 2, 2, 2, 2, 2, 2, 2, 2, 2, 4, 4, 4, 4, 4, 4, 4, 4, 8, 8,
     1, 1, 1, 1, 1, 1, 1, 1])) = 32768
   \<and> tier (l2_jump
     (map lit [1, 1, 1, 1, 2, 2, 2, 2, 2, 2, 2, 2, 2, 2, 4, 4, 4, 4, 4, 4, 4, 4, 8, 8,
     1, 1, 1, 1, 1, 1, 1, 1])) = 1048576
   \<and> tier (l3_jump_left
     (map lit [1, 1, 1, 1, 2, 2, 2, 2, 2, 2, 2, 2, 2, 2, 4, 4, 4, 4, 4, 4, 4, 4, 8, 8,
     1, 1, 1, 1, 1, 1, 1, 1])) = 16777216"
proof -
  let ?c = "map lit [1, 1, 1, 1, 2, 2, 2, 2, 2, 2, 2, 2, 2, 2, 4, 4, 4, 4, 4, 4, 4, 4, 8, 8,
     1, 1, 1, 1, 1, 1, 1, 1]"
  have "cache_sizes_detect ?c = Inr (32768, 1048576, 16777216)"
    by (simp add: cache_sizes_detect_def size_scan.simps eval_sizes)
  moreover have "length ?c = 32"
    by simp
  from cache_size_tiers_latched_in_order [OF this]
  have "cache_sizes_detect ?c = Inr (tier (l1_jump ?c), tier (l2_jump ?c), tier (l3_jump_left ?c))"
    by blast
  ultimately show ?thesis by simp
qed

end
